theory Spec2Isabelle
  imports Main "HOL-Library.Sublist"
begin

section \<open>Data model of \<^verbatim>\<open>transform/replacer.go\<close>\<close>

text \<open>
  A Go \<^verbatim>\<open>[]byte\<close> is a list of 8-bit characters. Go's \<^verbatim>\<open>int\<close> is modelled by
  \<^typ>\<open>int\<close>: every integer the code computes is a sum of lengths and offsets of slices
  that exist in memory, so 64-bit wrap-around is out of reach.
\<close>

type_synonym bytes = "char list"

text \<open>The two sentinel errors of \<^verbatim>\<open>golang.org/x/text/transform\<close>; \<open>None\<close> is \<^verbatim>\<open>nil\<close>.\<close>

datatype error = ErrShortSrc | ErrShortDst

text \<open>Run-time panics of the Go operations the code uses.\<close>

datatype panic = SliceBoundsOutOfRange | IntegerDivideByZero | IndexOutOfRange | NilDereference

record ReplaceHistory =
  src0 :: "int list"
  src1 :: "int list"
  dst0 :: "int list"
  dst1 :: "int list"

definition NewReplaceHistory :: ReplaceHistory where
  "NewReplaceHistory = \<lparr>src0 = [], src1 = [], dst0 = [], dst1 = []\<rparr>"

text \<open>
  \<^verbatim>\<open>(h *ReplaceHistory) add\<close>: the receiver is a pointer, \<open>None\<close> is the nil pointer,
  \<open>Some h\<close> carries the current contents of the object pointed to.
\<close>

definition add :: "ReplaceHistory option \<Rightarrow> int \<Rightarrow> int \<Rightarrow> int \<Rightarrow> int \<Rightarrow> ReplaceHistory option" where
  "add h s0 s1 d0 d1 =
     (case h of
        None \<Rightarrow> None
      | Some hh \<Rightarrow> Some (hh\<lparr>src0 := src0 hh @ [s0], src1 := src1 hh @ [s1],
                            dst0 := dst0 hh @ [d0], dst1 := dst1 hh @ [d1]\<rparr>))"

text \<open>\<^verbatim>\<open>At\<close> indexes the four slices; an index out of range panics, and so does a nil receiver.\<close>

definition index_int :: "int list \<Rightarrow> int \<Rightarrow> panic + int" where
  "index_int xs i = (if 0 \<le> i \<and> i < int (length xs) then Inr (xs ! nat i) else Inl IndexOutOfRange)"

definition At :: "ReplaceHistory option \<Rightarrow> int \<Rightarrow> panic + (int \<times> int \<times> int \<times> int)" where
  "At h i =
     (case h of
        None \<Rightarrow> Inl NilDereference
      | Some hh \<Rightarrow>
          (case index_int (src0 hh) i of Inl p \<Rightarrow> Inl p | Inr a \<Rightarrow>
           case index_int (src1 hh) i of Inl p \<Rightarrow> Inl p | Inr b \<Rightarrow>
           case index_int (dst0 hh) i of Inl p \<Rightarrow> Inl p | Inr c \<Rightarrow>
           case index_int (dst1 hh) i of Inl p \<Rightarrow> Inl p | Inr d \<Rightarrow> Inr (a, b, c, d)))"

record Replacer =
  old :: bytes
  new :: bytes
  history :: "ReplaceHistory option"

definition NewReplacer :: "bytes \<Rightarrow> bytes \<Rightarrow> ReplaceHistory option \<Rightarrow> Replacer" where
  "NewReplacer ol nw h = \<lparr>old = ol, new = nw, history = h\<rparr>"

definition Replace :: "bytes \<Rightarrow> bytes \<Rightarrow> Replacer" where
  "Replace ol nw = NewReplacer ol nw None"

definition ReplaceString :: "string \<Rightarrow> string \<Rightarrow> Replacer" where
  "ReplaceString ol nw = Replace ol nw"

section \<open>The Go built-ins and \<^verbatim>\<open>bytes\<close> functions the code calls\<close>

text \<open>
  \<^verbatim>\<open>s[a:]\<close> and \<^verbatim>\<open>s[a:b]\<close>. Go admits \<open>b\<close> up to the capacity of \<open>s\<close>; the model admits it up
  to the length only, so a slice expression that does not panic here does not panic in Go.
\<close>

definition slice_from :: "'a list \<Rightarrow> int \<Rightarrow> panic + 'a list" where
  "slice_from s a =
     (if 0 \<le> a \<and> a \<le> int (length s) then Inr (drop (nat a) s) else Inl SliceBoundsOutOfRange)"

definition slice :: "'a list \<Rightarrow> int \<Rightarrow> int \<Rightarrow> panic + 'a list" where
  "slice s a b =
     (if 0 \<le> a \<and> a \<le> b \<and> b \<le> int (length s)
      then Inr (take (nat (b - a)) (drop (nat a) s)) else Inl SliceBoundsOutOfRange)"

text \<open>
  \<^verbatim>\<open>copy(dst[off:], xs)\<close>: the slice \<^verbatim>\<open>dst[off:]\<close> shares its memory with \<open>dst\<close>, so the copy
  overwrites \<open>dst\<close> from offset \<open>off\<close>. It copies \<open>min (len dst - off) (len xs)\<close> bytes and returns
  that number, with the buffer as it is afterwards.
\<close>

definition copy_at :: "bytes \<Rightarrow> int \<Rightarrow> bytes \<Rightarrow> panic + (bytes \<times> int)" where
  "copy_at dst off xs =
     (case slice_from dst off of
        Inl p \<Rightarrow> Inl p
      | Inr room \<Rightarrow>
          (let n = min (length room) (length xs)
           in Inr (take (nat off) dst @ take n xs @ drop n room, int n)))"

text \<open>\<^verbatim>\<open>bytes.HasPrefix(s, prefix)\<close>.\<close>

definition HasPrefix :: "bytes \<Rightarrow> bytes \<Rightarrow> bool" where
  "HasPrefix s pre = (length pre \<le> length s \<and> take (length pre) s = pre)"

text \<open>
  \<^verbatim>\<open>bytes.Index(s, sep)\<close>: the index of the first instance of \<open>sep\<close> in \<open>s\<close>, or \<open>-1\<close> if \<open>sep\<close>
  is not present in \<open>s\<close>.
\<close>

fun Index :: "bytes \<Rightarrow> bytes \<Rightarrow> int" where
  "Index [] sep = (if sep = [] then 0 else -1)"
| "Index (c # s) sep =
     (if HasPrefix (c # s) sep then 0
      else (let i = Index s sep in if i = -1 then -1 else i + 1))"

section \<open>\<^verbatim>\<open>Replacer.Transform\<close>\<close>

text \<open>
  What a call returns: the destination buffer as the call leaves it, \<open>nDst\<close>, \<open>nSrc\<close>, \<open>err\<close>,
  and the replacer with the ledger as the call leaves it.
\<close>

type_synonym result = "bytes \<times> int \<times> int \<times> error option \<times> Replacer"

text \<open>
  The \<^verbatim>\<open>for { ... }\<close> loop of \<^verbatim>\<open>Transform\<close>, lines 105 to 140. The loop has no exit condition
  of its own, so the model is a partial function: \<open>None\<close> is a loop that never returns,
  \<open>Some (Inl p)\<close> a panic, \<open>Some (Inr res)\<close> a return.
\<close>

text \<open>
  The condition of line 112 after \<^verbatim>\<open>!atEOF\<close>, evaluated left to right as Go does:
  \<^verbatim>\<open>src[len(src)-boundary:]\<close> is sliced only when the first two conjuncts hold.
\<close>

definition boundary_withheld :: "Replacer \<Rightarrow> bytes \<Rightarrow> bool \<Rightarrow> int \<Rightarrow> panic + bool" where
  "boundary_withheld r src atEOF boundary =
     (if \<not> atEOF \<and> boundary \<noteq> 0 then
        (case slice_from src (int (length src) - boundary) of
           Inl p \<Rightarrow> Inl p
         | Inr tail \<Rightarrow> Inr (HasPrefix (old r) tail))
      else Inr False)"

partial_function (option) Transform_loop ::
  "Replacer \<Rightarrow> bytes \<Rightarrow> bytes \<Rightarrow> bool \<Rightarrow> int \<Rightarrow> int \<Rightarrow> error option \<Rightarrow> (panic + result) option" where
  "Transform_loop r dst src atEOF nDst nSrc err =
     (case slice_from src nSrc of
        Inl p \<Rightarrow> Some (Inl p)
      | Inr rest \<Rightarrow>
          (let i = Index rest (old r) in
           if i = -1 then
             (if length (old r) = 0 then Some (Inl IntegerDivideByZero)
              else
                (let n = int (length rest);
                     boundary = int (length rest) mod int (length (old r))
                 in case boundary_withheld r src atEOF boundary of
                      Inl p \<Rightarrow> Some (Inl p)
                    | Inr withheld \<Rightarrow>
                        (let n = (if withheld then n - boundary else n);
                             err = (if withheld then Some ErrShortDst else err)
                         in case slice_from dst nDst of
                              Inl p \<Rightarrow> Some (Inl p)
                            | Inr room \<Rightarrow>
                                if int (length room) < n then
                                  Some (Inr (dst, nDst, nSrc,
                                             if nDst = 0 then Some ErrShortDst else err, r))
                                else
                                  (case slice src nSrc (nSrc + n) of
                                     Inl p \<Rightarrow> Some (Inl p)
                                   | Inr chunk \<Rightarrow>
                                       (case copy_at dst nDst chunk of
                                          Inl p \<Rightarrow> Some (Inl p)
                                        | Inr (dst', m) \<Rightarrow>
                                            Some (Inr (dst', nDst + m, nSrc + m, err, r)))))))
           else
             (case slice_from dst nDst of
                Inl p \<Rightarrow> Some (Inl p)
              | Inr room \<Rightarrow>
                  if int (length room) < i + int (length (new r)) then
                    Some (Inr (dst, nDst, nSrc, if nDst = 0 then Some ErrShortDst else err, r))
                  else
                    (case slice src nSrc (nSrc + i) of
                       Inl p \<Rightarrow> Some (Inl p)
                     | Inr pre \<Rightarrow>
                         (case copy_at dst nDst pre of
                            Inl p \<Rightarrow> Some (Inl p)
                          | Inr (dst', m1) \<Rightarrow>
                              (let nDst1 = nDst + m1;
                                   r1 = r\<lparr>history := add (history r) (nSrc + i)
                                          (nSrc + i + int (length (old r))) nDst1
                                          (nDst1 + int (length (new r)))\<rparr>
                               in case copy_at dst' nDst1 (new r) of
                                    Inl p \<Rightarrow> Some (Inl p)
                                  | Inr (dst'', m2) \<Rightarrow>
                                      Transform_loop r1 dst'' src atEOF (nDst1 + m2)
                                        (nSrc + i + int (length (old r))) err))))))"

declare Transform_loop.simps [code]

text \<open>\<^verbatim>\<open>Transform\<close>, lines 89 to 141.\<close>

definition Transform :: "Replacer \<Rightarrow> bytes \<Rightarrow> bytes \<Rightarrow> bool \<Rightarrow> (panic + result) option" where
  "Transform r dst src atEOF =
     (if length src < length (old r) then
        Some (Inr (dst, 0, 0, if \<not> atEOF then Some ErrShortSrc else None, r))
      else if length (old r) = 0 then
        (case copy_at dst 0 src of
           Inl p \<Rightarrow> Some (Inl p)
         | Inr (dst', n) \<Rightarrow> Some (Inr (dst', 0 + n, 0 + n, None, r)))
      else Transform_loop r dst src atEOF 0 0 None)"

section \<open>Rule tables and \<^verbatim>\<open>ReplaceAll\<close>\<close>

text \<open>
  \<^verbatim>\<open>ReplaceByteTable\<close> and \<^verbatim>\<open>ReplaceStringTable\<close>: element \<open>2i\<close> is the old pattern of rule
  \<open>i\<close>, element \<open>2i+1\<close> its replacement. A Go string converts to its bytes unchanged, so both
  tables hold byte lists. (\<^verbatim>\<open>ReplaceRuneTable\<close> differs only by the UTF-8 encoder of the
  standard library and is left out.)
\<close>

datatype ReplaceTable = ReplaceByteTable "bytes list" | ReplaceStringTable "string list"

fun elems :: "ReplaceTable \<Rightarrow> bytes list" where
  "elems (ReplaceByteTable t) = t"
| "elems (ReplaceStringTable t) = t"

fun Add :: "ReplaceTable \<Rightarrow> bytes \<Rightarrow> bytes \<Rightarrow> ReplaceTable" where
  "Add (ReplaceByteTable t) ol nw = ReplaceByteTable (t @ [ol, nw])"
| "Add (ReplaceStringTable t) ol nw = ReplaceStringTable (t @ [ol, nw])"

definition index_bytes :: "bytes list \<Rightarrow> int \<Rightarrow> panic + bytes" where
  "index_bytes t i = (if 0 \<le> i \<and> i < int (length t) then Inr (t ! nat i) else Inl IndexOutOfRange)"

definition table_At :: "ReplaceTable \<Rightarrow> int \<Rightarrow> panic + (bytes \<times> bytes)" where
  "table_At t i =
     (case index_bytes (elems t) (i * 2) of
        Inl p \<Rightarrow> Inl p
      | Inr ol \<Rightarrow>
          (case index_bytes (elems t) (i * 2 + 1) of
             Inl p \<Rightarrow> Inl p
           | Inr nw \<Rightarrow> Inr (ol, nw)))"

definition Len :: "ReplaceTable \<Rightarrow> int" where
  "Len t = int (length (elems t)) div 2"

text \<open>The loop of \<^verbatim>\<open>ReplaceAll\<close> over \<^verbatim>\<open>i := range rs\<close>, filling \<open>rs[i]\<close> in index order.\<close>

fun ReplaceAll_rules :: "ReplaceTable \<Rightarrow> nat list \<Rightarrow> panic + Replacer list" where
  "ReplaceAll_rules t [] = Inr []"
| "ReplaceAll_rules t (i # is) =
     (case table_At t (int i) of
        Inl p \<Rightarrow> Inl p
      | Inr (ol, nw) \<Rightarrow>
          (case ReplaceAll_rules t is of
             Inl p \<Rightarrow> Inl p
           | Inr rs \<Rightarrow> Inr (Replace ol nw # rs)))"

text \<open>
  \<^verbatim>\<open>ReplaceAll\<close> up to its last line: the replacers handed to \<^verbatim>\<open>transform.Chain\<close>.
\<close>

definition ReplaceAll :: "ReplaceTable \<Rightarrow> panic + Replacer list" where
  "ReplaceAll t = ReplaceAll_rules t [0..<nat (Len t)]"

text \<open>
  Modelled from the spec: \<^verbatim>\<open>transform.Chain\<close> and the driver that pumps bytes through a
  transformer belong to \<^verbatim>\<open>golang.org/x/text/transform\<close> and are not under \<^verbatim>\<open>src/\<close>. The
  spec says that the stages are applied strictly in table order and that stage \<open>k\<close>'s emitted
  destination bytes become stage \<open>k+1\<close>'s source bytes. \<open>Chain rs cap src\<close> feeds the whole of
  \<open>src\<close> to the first stage in one call with \<^verbatim>\<open>atEOF=true\<close> and a destination of \<open>cap\<close>
  bytes, hands the bytes it produced to the next stage, and stops at the first stage that
  reports an error.
\<close>

fun Chain :: "Replacer list \<Rightarrow> nat \<Rightarrow> bytes \<Rightarrow> (panic + bytes \<times> error option) option" where
  "Chain [] cap src = Some (Inr (src, None))"
| "Chain (r # rs) cap src =
     (case Transform r (replicate cap (CHR 0x00)) src True of
        None \<Rightarrow> None
      | Some (Inl p) \<Rightarrow> Some (Inl p)
      | Some (Inr (dst', nDst, nSrc, err, r')) \<Rightarrow>
          (case err of
             None \<Rightarrow> Chain rs cap (take (nat nDst) dst')
           | Some e \<Rightarrow> Some (Inr (take (nat nDst) dst', Some e))))"

section \<open>Reference notions of the specification\<close>

text \<open>
  The non-streaming replace-all of the specification: scanning from the left, every
  occurrence of a non-empty \<open>ol\<close> that starts at the scanning position is replaced by \<open>nw\<close>
  and the scan continues behind it, so the occurrences replaced are the leftmost ones and
  do not overlap.
\<close>

function replace_all_spec :: "bytes \<Rightarrow> bytes \<Rightarrow> bytes \<Rightarrow> bytes" where
  "replace_all_spec ol nw s =
     (if ol = [] \<or> s = [] then s
      else if prefix ol s then nw @ replace_all_spec ol nw (drop (length ol) s)
      else hd s # replace_all_spec ol nw (tl s))"
  by pat_completeness auto
termination
  by (relation "measure (\<lambda>(ol, nw, s). length s)") auto

declare replace_all_spec.simps [simp del]

text \<open>
  The bytes a call has produced: the first \<open>nDst\<close> bytes of the destination buffer.
\<close>

fun produced :: "(panic + result) option \<Rightarrow> bytes" where
  "produced (Some (Inr (dst', nDst, nSrc, err, r'))) = take (nat nDst) dst'"
| "produced _ = []"

text \<open>
  One engine's lifetime: the states a replacer reaches from \<open>r0\<close> by a sequence of
  \<^verbatim>\<open>Transform\<close> calls that return. The list holds, for each call in order, the number of
  ledger records at the moment the call starts.
\<close>

definition ledger_len :: "Replacer \<Rightarrow> nat" where
  "ledger_len r = (case history r of None \<Rightarrow> 0 | Some h \<Rightarrow> length (src0 h))"

inductive lifetime :: "Replacer \<Rightarrow> nat list \<Rightarrow> Replacer \<Rightarrow> bool" for r0 :: Replacer where
  fresh: "lifetime r0 [] r0"
| call: "lifetime r0 ms r \<Longrightarrow>
         Transform r dst src atEOF = Some (Inr (dst', nDst, nSrc, err, r')) \<Longrightarrow>
         lifetime r0 (ms @ [ledger_len r]) r'"

text \<open>
  The ledger coordinate law in the words of the specification: every record spans
  \<open>len(old)\<close> source bytes and \<open>len(new)\<close> destination bytes, and consecutive records satisfy
  \<open>src0(i) < src1(i) \<le> src0(i+1)\<close> and \<open>dst0(i) < dst1(i) \<le> dst0(i+1)\<close>.
\<close>

definition ledger_coordinate_law :: "bytes \<Rightarrow> bytes \<Rightarrow> ReplaceHistory \<Rightarrow> bool" where
  "ledger_coordinate_law ol nw h =
     ((\<forall>i < length (src0 h).
         src1 h ! i - src0 h ! i = int (length ol) \<and>
         dst1 h ! i - dst0 h ! i = int (length nw) \<and>
         src0 h ! i < src1 h ! i \<and> dst0 h ! i < dst1 h ! i) \<and>
      (\<forall>i. Suc i < length (src0 h) \<longrightarrow>
         src1 h ! i \<le> src0 h ! Suc i \<and> dst1 h ! i \<le> dst0 h ! Suc i))"

text \<open>
  Auxiliary notions for the ledger: its records in append order (what \<^verbatim>\<open>Iterate\<close> visits),
  the four slices having one length, and a run of records that starts at or after the
  offsets \<open>a\<close>, \<open>b\<close>, each spanning \<open>lo\<close> source and \<open>ln\<close> destination bytes and each starting
  at or after the end of the one before.
\<close>

definition records :: "ReplaceHistory \<Rightarrow> (int \<times> int \<times> int \<times> int) list" where
  "records h = zip (src0 h) (zip (src1 h) (zip (dst0 h) (dst1 h)))"

definition aligned :: "ReplaceHistory \<Rightarrow> bool" where
  "aligned h = (length (src1 h) = length (src0 h) \<and> length (dst0 h) = length (src0 h) \<and>
                length (dst1 h) = length (src0 h))"

fun chain_from :: "int \<Rightarrow> int \<Rightarrow> int \<Rightarrow> int \<Rightarrow> (int \<times> int \<times> int \<times> int) list \<Rightarrow> bool" where
  "chain_from lo ln a b [] = True"
| "chain_from lo ln a b ((s0, s1, d0, d1) # es) =
     (a \<le> s0 \<and> b \<le> d0 \<and> s1 = s0 + lo \<and> d1 = d0 + ln \<and> chain_from lo ln s1 d1 es)"

section \<open>Facts about \<^verbatim>\<open>bytes.Index\<close>\<close>

lemma Index_ge: "- 1 \<le> Index s sep"
  by (induction s) (auto simp: Let_def)

lemma Index_nil_sep [simp]: "Index s [] = 0"
  by (cases s) (auto simp: HasPrefix_def)

lemma Index_found:
  "Index s sep = int k \<Longrightarrow> k + length sep \<le> length s \<and> take (length sep) (drop k s) = sep"
proof (induction s arbitrary: k)
  case Nil
  then show ?case by (auto split: if_splits)
next
  case (Cons c s)
  show ?case
  proof (cases "HasPrefix (c # s) sep")
    case True
    with Cons.prems have "k = 0" by simp
    with True show ?thesis by (simp add: HasPrefix_def)
  next
    case False
    with Cons.prems have ne: "Index s sep \<noteq> - 1" and eq: "Index s sep + 1 = int k"
      by (auto simp: Let_def split: if_splits)
    from Index_ge [of s sep] ne eq obtain j where k: "k = Suc j" and j: "Index s sep = int j"
      by (cases k) auto
    from Cons.IH [OF j] k show ?thesis by simp
  qed
qed

lemma Index_none:
  "Index s sep = - 1 \<Longrightarrow> \<not> HasPrefix (drop j s) sep"
proof (induction s arbitrary: j)
  case Nil
  then show ?case by (auto simp: HasPrefix_def split: if_splits)
next
  case (Cons c s)
  from Cons.prems have np: "\<not> HasPrefix (c # s) sep" and rec: "Index s sep = - 1"
    using Index_ge [of s sep] by (auto simp: Let_def split: if_splits)
  show ?case
  proof (cases j)
    case 0
    with np show ?thesis by simp
  next
    case (Suc j')
    with Cons.IH [OF rec] show ?thesis by simp
  qed
qed

lemma Index_leftmost:
  "Index s sep = int k \<Longrightarrow> j < k \<Longrightarrow> \<not> HasPrefix (drop j s) sep"
proof (induction s arbitrary: k j)
  case Nil
  then show ?case by (auto split: if_splits)
next
  case (Cons c s)
  from Cons.prems have np: "\<not> HasPrefix (c # s) sep"
    by (auto simp: Let_def split: if_splits)
  with Cons.prems have ne: "Index s sep \<noteq> - 1" and eq: "Index s sep + 1 = int k"
    by (auto simp: Let_def split: if_splits)
  from Index_ge [of s sep] ne eq obtain k' where k: "k = Suc k'" and k': "Index s sep = int k'"
    by (cases k) auto
  show ?case
  proof (cases j)
    case 0
    with np show ?thesis by simp
  next
    case (Suc j')
    with Cons.prems k have "j' < k'" by simp
    from Cons.IH [OF k' this] Suc show ?thesis by simp
  qed
qed

lemma Index_cases: "Index s sep = - 1 \<or> (\<exists>k. Index s sep = int k)"
proof (cases "0 \<le> Index s sep")
  case True
  then have "Index s sep = int (nat (Index s sep))" by simp
  then show ?thesis by blast
next
  case False
  with Index_ge [of s sep] show ?thesis by simp
qed

lemma Index_drop_none: "Index s sep = - 1 \<Longrightarrow> Index (drop k s) sep = - 1"
proof (rule ccontr)
  assume a: "Index s sep = - 1" and b: "Index (drop k s) sep \<noteq> - 1"
  from b Index_cases obtain j where j: "Index (drop k s) sep = int j" by blast
  from Index_found [OF j] have "length sep \<le> length s - (k + j)" and "take (length sep) (drop (k + j) s) = sep"
    by (auto simp: add.commute)
  then have "HasPrefix (drop (k + j) s) sep"
    by (simp add: HasPrefix_def)
  with Index_none [OF a] show False by blast
qed

section \<open>Slices and copies at offsets that are in range\<close>

lemma slice_from_int: "a \<le> length s \<Longrightarrow> slice_from s (int a) = Inr (drop a s)"
  by (simp add: slice_from_def)

lemma slice_int:
  "a + k \<le> length s \<Longrightarrow> slice s (int a) (int a + int k) = Inr (take k (drop a s))"
  by (simp add: slice_def)

lemma copy_at_int:
  "b + length xs \<le> length dst \<Longrightarrow>
   copy_at dst (int b) xs = Inr (take b dst @ xs @ drop (b + length xs) dst, int (length xs))"
  by (auto simp: copy_at_def slice_from_def Let_def min_def add.commute)

lemma copy_at_0:
  "copy_at dst 0 xs =
   Inr (take (min (length dst) (length xs)) xs @ drop (min (length dst) (length xs)) dst,
        int (min (length dst) (length xs)))"
  by (simp add: copy_at_def slice_from_def Let_def)

lemma boundary_withheld_int:
  assumes "bd \<le> length src"
  shows "boundary_withheld r src atEOF (int bd) =
         Inr (\<not> atEOF \<and> bd \<noteq> 0 \<and> HasPrefix (old r) (drop (length src - bd) src))"
proof -
  have "slice_from src (int (length src) - int bd) = Inr (drop (length src - bd) src)"
    using assms by (simp add: slice_from_def nat_diff_distrib)
  then show ?thesis
    by (simp only: boundary_withheld_def sum.case of_nat_eq_0_iff) simp
qed

section \<open>One iteration of the loop\<close>

lemma loop_found_short:
  assumes "a \<le> length src" "b \<le> length dst"
    and "Index (drop a src) (old r) = int k"
    and "length dst - b < k + length (new r)"
  shows "Transform_loop r dst src atEOF (int b) (int a) err =
         Some (Inr (dst, int b, int a, if b = 0 then Some ErrShortDst else err, r))"
proof -
  have "int (length (drop b dst)) < int k + int (length (new r))"
    using assms(4) by (simp only: length_drop of_nat_add [symmetric] of_nat_less_iff)
  then show ?thesis
    using assms(1-3)
    by (subst Transform_loop.simps) (simp add: slice_from_int Let_def del: length_drop)
qed

lemma loop_found_room:
  assumes "a \<le> length src" "b \<le> length dst"
    and "Index (drop a src) (old r) = int k"
    and "k + length (new r) \<le> length dst - b"
  shows "Transform_loop r dst src atEOF (int b) (int a) err =
         Transform_loop
           (r\<lparr>history := add (history r) (int a + int k) (int a + int k + int (length (old r)))
                 (int b + int k) (int b + int k + int (length (new r)))\<rparr>)
           (take b dst @ take k (drop a src) @ new r @ drop (b + k + length (new r)) dst)
           src atEOF (int (b + k + length (new r))) (int (a + k + length (old r))) err"
proof -
  from Index_found [OF assms(3)] have "k + length (old r) \<le> length src - a"
    by simp
  with assms(1) have k: "a + k \<le> length src"
    by arith
  have room: "\<not> int (length (drop b dst)) < int k + int (length (new r))"
    using assms(4) by (simp only: length_drop of_nat_add [symmetric] of_nat_less_iff not_less)
  let ?pre = "take k (drop a src)"
  have lpre: "length ?pre = k" using k by simp
  have c1: "copy_at dst (int b) ?pre = Inr (take b dst @ ?pre @ drop (b + k) dst, int k)"
    using copy_at_int [of b ?pre dst] assms(2,4) lpre by simp
  let ?dst' = "take b dst @ ?pre @ drop (b + k) dst"
  have c2: "copy_at ?dst' (int b + int k) (new r) =
            Inr (take b dst @ ?pre @ new r @ drop (b + k + length (new r)) dst, int (length (new r)))"
    using copy_at_int [of "b + k" "new r" ?dst'] assms(2,4) lpre
    by (simp add: add.commute add.left_commute)
  show ?thesis
    using assms(1-3) room
    by (subst Transform_loop.simps)
       (simp add: slice_from_int slice_int [OF k] c1 c2 Let_def add.assoc del: length_drop)
qed

lemma loop_not_found:
  assumes a: "a \<le> length src" and b: "b \<le> length dst" and ne: "old r \<noteq> []"
    and nf: "Index (drop a src) (old r) = - 1"
    and bd: "bd = (length src - a) mod length (old r)"
    and wh: "wh = (\<not> atEOF \<and> bd \<noteq> 0 \<and> HasPrefix (old r) (drop (length src - bd) src))"
    and n: "n = (if wh then length src - a - bd else length src - a)"
    and e: "e = (if wh then Some ErrShortDst else err)"
  shows "Transform_loop r dst src atEOF (int b) (int a) err =
         Some (Inr (if length dst - b < n
                    then (dst, int b, int a, if b = 0 then Some ErrShortDst else e, r)
                    else (take b dst @ take n (drop a src) @ drop (b + n) dst,
                          int (b + n), int (a + n), e, r)))"
proof -
  have bdle: "bd \<le> length src - a"
    unfolding bd by (rule mod_less_eq_dividend)
  then have bdle': "bd \<le> length src" by arith
  have md: "int (length (drop a src)) mod int (length (old r)) = int bd"
    unfolding bd by (simp add: zmod_int)
  have "length src - a - bd \<le> length src - a" by arith
  then have nle: "n \<le> length src - a" unfolding n by simp
  have ni: "(if wh then int (length (drop a src)) - int bd else int (length (drop a src))) = int n"
    unfolding n using bdle
    by (cases wh) simp_all
  have an: "a + n \<le> length src" using nle a by arith
  have room: "(int (length (drop b dst)) < int n) = (length dst - b < n)"
    by simp
  have cp: "\<not> length dst - b < n \<Longrightarrow>
            copy_at dst (int b) (take n (drop a src)) =
            Inr (take b dst @ take n (drop a src) @ drop (b + n) dst, int n)"
    using copy_at_int [of b "take n (drop a src)" dst] nle b by (simp add: min_absorb2)
  have nfi: "(Index (drop a src) (old r) = - 1) = True"
    using nf by simp
  have nel: "(length (old r) = 0) = False"
    using ne by simp
  show ?thesis
  proof (cases "length dst - b < n")
    case True
    then show ?thesis
      apply (subst Transform_loop.simps)
      apply (simp only: slice_from_int [OF a] slice_from_int [OF b] sum.case Let_def md nfi nel
          boundary_withheld_int [OF bdle'] wh [symmetric] ni e [symmetric] room if_True if_False
          of_nat_eq_0_iff)
      done
  next
    case False
    then show ?thesis
      apply (subst Transform_loop.simps)
      apply (simp only: slice_from_int [OF a] slice_from_int [OF b] sum.case Let_def md nfi nel
          boundary_withheld_int [OF bdle'] wh [symmetric] ni e [symmetric] room if_True if_False
          slice_int [OF an] cp [OF False] prod.case of_nat_add)
      done
  qed
qed

section \<open>Induction over the iterations of the loop\<close>

lemma Transform_loop_induct [consumes 3, case_names not_found found_short found_room]:
  assumes "old r \<noteq> []" "a \<le> length src" "b \<le> length dst"
    and nf: "\<And>r dst a b.
          \<lbrakk>old r \<noteq> []; a \<le> length src; b \<le> length dst;
           Index (drop a src) (old r) = - 1\<rbrakk> \<Longrightarrow> P r dst a b"
    and short: "\<And>r dst a b k.
          \<lbrakk>old r \<noteq> []; a \<le> length src; b \<le> length dst;
           Index (drop a src) (old r) = int k;
           length dst - b < k + length (new r)\<rbrakk> \<Longrightarrow> P r dst a b"
    and room: "\<And>r dst a b k.
          \<lbrakk>old r \<noteq> []; a \<le> length src; b \<le> length dst;
           Index (drop a src) (old r) = int k;
           k + length (new r) \<le> length dst - b;
           a + k + length (old r) \<le> length src;
           P (r\<lparr>history := add (history r) (int a + int k) (int a + int k + int (length (old r)))
                  (int b + int k) (int b + int k + int (length (new r)))\<rparr>)
             (take b dst @ take k (drop a src) @ new r @ drop (b + k + length (new r)) dst)
             (a + k + length (old r)) (b + k + length (new r))\<rbrakk> \<Longrightarrow> P r dst a b"
  shows "P r dst a b"
  using assms(1-3)
proof (induction "length src - a" arbitrary: r dst a b rule: less_induct)
  case less
  show ?case
  proof (cases "Index (drop a src) (old r) = - 1")
    case True
    show ?thesis by (rule nf [OF less.prems True])
  next
    case False
    with Index_cases [of "drop a src" "old r"] obtain k
      where k: "Index (drop a src) (old r) = int k" by blast
    show ?thesis
    proof (cases "length dst - b < k + length (new r)")
      case True
      show ?thesis by (rule short [OF less.prems k True])
    next
      case False
      then have fits: "k + length (new r) \<le> length dst - b" by simp
      from Index_found [OF k] have "k + length (old r) \<le> length src - a" by simp
      with less.prems have adv: "a + k + length (old r) \<le> length src" by arith
      from less.prems(1) have "0 < length (old r)" by simp
      with adv less.prems have dec: "length src - (a + k + length (old r)) < length src - a"
        by arith
      let ?r = "r\<lparr>history := add (history r) (int a + int k) (int a + int k + int (length (old r)))
                  (int b + int k) (int b + int k + int (length (new r)))\<rparr>"
      let ?dst = "take b dst @ take k (drop a src) @ new r @ drop (b + k + length (new r)) dst"
      have len: "length ?dst = length dst"
        using fits less.prems adv by simp
      have step: "P ?r ?dst (a + k + length (old r)) (b + k + length (new r))"
      proof (rule less.hyps [OF dec])
        show "old ?r \<noteq> []" using less.prems by simp
        show "a + k + length (old r) \<le> length src" by (rule adv)
        show "b + k + length (new r) \<le> length ?dst"
          unfolding len using fits less.prems by arith
      qed
      show ?thesis by (rule room [OF less.prems k fits adv step])
    qed
  qed
qed

section \<open>The loop returns, within the bounds of both buffers\<close>

lemma splice_props:
  assumes "b + length mid \<le> length dst"
  shows "length (take b dst @ mid @ drop (b + length mid) dst) = length dst"
    and "take b (take b dst @ mid @ drop (b + length mid) dst) = take b dst"
    and "b + length mid \<le> c \<Longrightarrow>
         drop c (take b dst @ mid @ drop (b + length mid) dst) = drop c dst"
  using assms by (simp_all add: min_absorb2)

lemma loop_returns:
  assumes "old r \<noteq> []" "a \<le> length src" "b \<le> length dst"
  shows "case Transform_loop r dst src atEOF (int b) (int a) err of
           Some (Inr (dst', nd, ns, e', r')) \<Rightarrow>
             int a \<le> ns \<and> ns \<le> int (length src) \<and> int b \<le> nd \<and> nd \<le> int (length dst) \<and>
             length dst' = length dst \<and> take b dst' = take b dst \<and>
             drop (nat nd) dst' = drop (nat nd) dst \<and> old r' = old r \<and> new r' = new r
         | _ \<Rightarrow> False"
  using assms
proof (induction r dst a b rule: Transform_loop_induct)
  case (not_found r dst a b)
  define bd where "bd = (length src - a) mod length (old r)"
  define wh where "wh = (\<not> atEOF \<and> bd \<noteq> 0 \<and> HasPrefix (old r) (drop (length src - bd) src))"
  define n where "n = (if wh then length src - a - bd else length src - a)"
  define e where "e = (if wh then Some ErrShortDst else err)"
  note eq = loop_not_found [OF not_found(2,3,1,4) bd_def wh_def n_def e_def]
  have "length src - a - bd \<le> length src - a" by arith
  then have nle: "n \<le> length src - a" unfolding n_def by simp
  show ?case
  proof (cases "length dst - b < n")
    case True
    with eq not_found show ?thesis by simp
  next
    case False
    with not_found have fit: "b + length (take n (drop a src)) \<le> length dst"
      using nle by simp
    from nle not_found have "a + n \<le> length src" by arith
    moreover from False not_found have "b + n \<le> length dst" by arith
    moreover have ln: "length (take n (drop a src)) = n" using nle by simp
    ultimately show ?thesis
      using eq False splice_props [OF fit] by (simp add: ln nat_int_add)
  qed
next
  case (found_short r dst a b k)
  from loop_found_short [OF found_short(2,3,4,5), where atEOF=atEOF and err=err] found_short(2,3)
  show ?case by simp
next
  case (found_room r dst a b k)
  let ?mid = "take k (drop a src) @ new r"
  let ?dst = "take b dst @ take k (drop a src) @ new r @ drop (b + k + length (new r)) dst"
  let ?r = "r\<lparr>history := add (history r) (int a + int k) (int a + int k + int (length (old r)))
                  (int b + int k) (int b + int k + int (length (new r)))\<rparr>"
  from found_room(6) found_room(2) have lk: "length (take k (drop a src)) = k" by simp
  then have lm: "length ?mid = k + length (new r)" by simp
  with found_room(3,5) have fit: "b + length ?mid \<le> length dst" by arith
  have b2: "b + length ?mid = b + k + length (new r)" using lm by simp
  note sp = splice_props [OF fit, unfolded b2 append_assoc]
  note eq = loop_found_room [OF found_room(2,3,4,5), where atEOF=atEOF and err=err]
  let ?call = "Transform_loop ?r ?dst src atEOF (int (b + k + length (new r)))
            (int (a + k + length (old r))) err"
  from found_room(7) obtain dst' nd ns e' r' where
    res: "?call = Some (Inr (dst', nd, ns, e', r'))"
    by (cases ?call) (auto split: sum.splits)
  from found_room(7) have ih:
      "int (a + k + length (old r)) \<le> ns" "ns \<le> int (length src)"
      "int (b + k + length (new r)) \<le> nd" "nd \<le> int (length ?dst)"
      "length dst' = length ?dst"
      "take (b + k + length (new r)) dst' = take (b + k + length (new r)) ?dst"
      "drop (nat nd) dst' = drop (nat nd) ?dst" "old r' = old ?r" "new r' = new ?r"
    unfolding res by (simp_all only: option.case sum.case prod.case)
  have "take b dst' = take b (take (b + k + length (new r)) dst')"
    by (simp add: min_absorb1)
  also have "\<dots> = take b (take (b + k + length (new r)) ?dst)"
    using ih(6) by simp
  also have "\<dots> = take b ?dst"
    by (simp only: take_take) (simp add: min_absorb1)
  also have "\<dots> = take b dst" by (rule sp(2))
  finally have tk: "take b dst' = take b dst" .
  from ih(3) have "b + k + length (new r) \<le> nat nd" by arith
  from sp(3) [OF this] ih(7) have dr: "drop (nat nd) dst' = drop (nat nd) dst" by simp
  from ih(1,3) have "int a \<le> ns" "int b \<le> nd" by simp_all
  moreover from ih(4) have "nd \<le> int (length dst)" by (simp only: sp(1))
  moreover from ih(5) have "length dst' = length dst" by (simp only: sp(1))
  moreover from ih(8,9) have "old r' = old r" "new r' = new r" by simp_all
  moreover have "Transform_loop r dst src atEOF (int b) (int a) err =
                 Some (Inr (dst', nd, ns, e', r'))"
    by (simp only: eq res)
  ultimately show ?case using ih(2) tk dr by simp
qed

lemma Transform_returns:
  "case Transform r dst src atEOF of
     Some (Inr (dst', nd, ns, e', r')) \<Rightarrow>
       0 \<le> ns \<and> ns \<le> int (length src) \<and> 0 \<le> nd \<and> nd \<le> int (length dst) \<and>
       length dst' = length dst \<and> drop (nat nd) dst' = drop (nat nd) dst \<and>
       old r' = old r \<and> new r' = new r
   | _ \<Rightarrow> False"
proof (cases "length src < length (old r)")
  case True
  then show ?thesis by (simp add: Transform_def)
next
  case False
  note long = this
  show ?thesis
  proof (cases "old r = []")
    case True
    then show ?thesis
      by (simp add: Transform_def copy_at_0 min_absorb2)
  next
    case False
    with long have eq: "Transform r dst src atEOF = Transform_loop r dst src atEOF (int 0) (int 0) None"
      by (simp add: Transform_def)
    from loop_returns [OF False, of 0 src 0 dst atEOF None]
    show ?thesis unfolding eq
      by (auto split: option.splits sum.splits)
  qed
qed

section \<open>The loop against the replace-all of the specification\<close>

lemma HasPrefix_prefix: "HasPrefix s ol = prefix ol s"
  by (auto simp: HasPrefix_def prefix_def) (metis append_take_drop_id)

lemma replace_all_spec_none:
  "Index s ol = - 1 \<Longrightarrow> replace_all_spec ol nw s = s"
proof (induction s)
  case Nil
  then show ?case by (simp add: replace_all_spec.simps)
next
  case (Cons c s)
  from Index_none [OF Cons.prems, of 0] have np: "\<not> prefix ol (c # s)"
    by (simp add: HasPrefix_prefix)
  from Index_drop_none [OF Cons.prems, of 1] have "Index s ol = - 1" by simp
  with Cons.IH np show ?case
    by (subst replace_all_spec.simps) simp
qed

lemma replace_all_spec_found:
  "Index s ol = int k \<Longrightarrow> ol \<noteq> [] \<Longrightarrow>
   replace_all_spec ol nw s = take k s @ nw @ replace_all_spec ol nw (drop (k + length ol) s)"
proof (induction k arbitrary: s)
  case 0
  from Index_found [OF "0.prems"(1)] have "HasPrefix s ol" "length ol \<le> length s"
    by (simp_all add: HasPrefix_def)
  with "0.prems"(2) have "prefix ol s" "s \<noteq> []"
    by (auto simp: HasPrefix_prefix)
  with "0.prems"(2) show ?case
    by (subst replace_all_spec.simps) simp
next
  case (Suc k)
  from Index_found [OF Suc.prems(1)] obtain c t where s: "s = c # t"
    by (cases s) auto
  from Index_leftmost [OF Suc.prems(1), of 0] have np: "\<not> prefix ol s"
    by (simp add: HasPrefix_prefix)
  then have nh: "\<not> HasPrefix (c # t) ol"
    by (simp add: HasPrefix_prefix s)
  from Suc.prems(1) nh have "Index t ol = int k"
    unfolding s by (simp add: Let_def split: if_splits)
  from Suc.IH [OF this Suc.prems(2)] np Suc.prems(2) show ?case
    unfolding s by (subst replace_all_spec.simps) simp
qed

lemma loop_whole_stream:
  assumes "old r \<noteq> []" "a \<le> length src" "b \<le> length dst"
    and "length (replace_all_spec (old r) (new r) (drop a src)) \<le> length dst - b"
  shows "\<exists>r'. Transform_loop r dst src True (int b) (int a) err =
           Some (Inr (take b dst @ replace_all_spec (old r) (new r) (drop a src) @
                        drop (b + length (replace_all_spec (old r) (new r) (drop a src))) dst,
                      int (b + length (replace_all_spec (old r) (new r) (drop a src))),
                      int (length src), err, r'))"
  using assms
proof (induction r dst a b rule: Transform_loop_induct)
  case (not_found r dst a b)
  note eq = loop_not_found [OF not_found(2,3,1,4) refl refl refl refl, where atEOF=True and err=err]
  have R: "replace_all_spec (old r) (new r) (drop a src) = drop a src"
    by (rule replace_all_spec_none [OF not_found(4)])
  from not_found(5) have fit: "\<not> length dst - b < length src - a"
    unfolding R by simp
  from not_found(2) have "int a + int (length src - a) = int (length src)" by simp
  with fit show ?case
    unfolding eq R by simp
next
  case (found_short r dst a b k)
  from replace_all_spec_found [OF found_short(4,1), of "new r"]
  have "k + length (new r) \<le> length (replace_all_spec (old r) (new r) (drop a src))"
    using Index_found [OF found_short(4)] by simp
  with found_short(5,6) show ?case by arith
next
  case (found_room r dst a b k)
  let ?R = "replace_all_spec (old r) (new r)"
  let ?a2 = "a + k + length (old r)" and ?b2 = "b + k + length (new r)"
  let ?mid = "take k (drop a src) @ new r"
  let ?dst = "take b dst @ take k (drop a src) @ new r @ drop ?b2 dst"
  let ?r = "r\<lparr>history := add (history r) (int a + int k) (int a + int k + int (length (old r)))
                  (int b + int k) (int b + int k + int (length (new r)))\<rparr>"
  note eq = loop_found_room [OF found_room(2,3,4,5), where atEOF=True and err=err]
  from found_room(6) found_room(2) have kle: "k \<le> length src - a" by arith
  then have lk: "length (take k (drop a src)) = k" by simp
  then have lm: "length ?mid = k + length (new r)" by simp
  with found_room(3,5) have fit: "b + length ?mid \<le> length dst" by arith
  have b2: "b + length ?mid = ?b2" using lm by simp
  note sp = splice_props [OF fit, unfolded b2 append_assoc]
  have d2: "drop (k + length (old r)) (drop a src) = drop ?a2 src"
    by (simp add: ac_simps)
  have R: "?R (drop a src) = take k (drop a src) @ new r @ ?R (drop ?a2 src)"
    using replace_all_spec_found [OF found_room(4,1), of "new r"] by (simp only: d2)
  then have lR: "length (?R (drop a src)) = k + length (new r) + length (?R (drop ?a2 src))"
    using lk by simp
  with found_room(8) have room2: "length (?R (drop ?a2 src)) \<le> length ?dst - ?b2"
    unfolding sp(1) by arith
  have "length (replace_all_spec (old ?r) (new ?r) (drop ?a2 src)) \<le> length ?dst - ?b2"
    using room2 by simp
  from found_room(7) [OF this] obtain r' where
    res: "Transform_loop ?r ?dst src True (int ?b2) (int ?a2) err =
           Some (Inr (take ?b2 ?dst @ ?R (drop ?a2 src) @
                        drop (?b2 + length (?R (drop ?a2 src))) ?dst,
                      int (?b2 + length (?R (drop ?a2 src))), int (length src), err, r'))"
    by auto
  have tk: "take ?b2 ?dst = take b dst @ take k (drop a src) @ new r"
    using found_room(3) lk by (simp add: min_absorb2)
  have dr: "drop (?b2 + length (?R (drop ?a2 src))) ?dst =
            drop (b + length (?R (drop a src))) dst"
    using sp(3) [of "?b2 + length (?R (drop ?a2 src))"] lR by (simp add: add.assoc)
  have "Transform_loop r dst src True (int b) (int a) err =
           Some (Inr (take b dst @ ?R (drop a src) @ drop (b + length (?R (drop a src))) dst,
                      int (b + length (?R (drop a src))), int (length src), err, r'))"
    unfolding eq res tk dr using kle by (simp add: R min_absorb2 add.assoc)
  then show ?case by blast
qed

text \<open>
  A single call at the end of the stream with a source at least as long as \<open>old\<close> and room
  for the whole result consumes the source and produces the replace-all of the
  specification.
\<close>

lemma Transform_whole_stream:
  assumes "old r \<noteq> []" "length (old r) \<le> length src"
    and "length (replace_all_spec (old r) (new r) src) \<le> length dst"
  shows "\<exists>r'. Transform r dst src True =
           Some (Inr (replace_all_spec (old r) (new r) src @
                        drop (length (replace_all_spec (old r) (new r) src)) dst,
                      int (length (replace_all_spec (old r) (new r) src)),
                      int (length src), None, r'))"
proof -
  from assms(1,2) have eq: "Transform r dst src True = Transform_loop r dst src True (int 0) (int 0) None"
    by (simp add: Transform_def)
  from assms(3) have "length (replace_all_spec (old r) (new r) (drop 0 src)) \<le> length dst - 0"
    by simp
  from loop_whole_stream [OF assms(1) le0 le0 this, where err=None]
  show ?thesis unfolding eq by simp
qed

text \<open>
  C1 (whole-stream equivalence) holds for a source at least as long as \<open>old\<close>, as
  \<open>Transform_whole_stream\<close> shows, and fails for a shorter one: a final chunk shorter than
  \<open>old\<close> is neither copied nor consumed. With \<open>old = ab\<close>, \<open>new = Z\<close> and the whole source
  \<open>a\<close>, the call returns \<open>nDst = 0\<close>, \<open>nSrc = 0\<close> and a nil error, while the replace-all of
  the specification yields \<open>a\<close>.
\<close>

theorem Transform_eof_drops_short_tail:
  "Transform (Replace ''ab'' ''Z'') ''????'' ''a'' True =
     Some (Inr (''????'', 0, 0, None, Replace ''ab'' ''Z'')) \<and>
   replace_all_spec ''ab'' ''Z'' ''a'' = ''a''"
  by code_simp

section \<open>Chunk boundaries\<close>

text \<open>
  C2 (boundary invariance) fails when the first chunk ends in a proper prefix of \<open>old\<close> and
  its length is a multiple of \<open>len(old)\<close>: the modulo rule withholds nothing. With
  \<open>old = ab\<close>, \<open>new = Z\<close>, the source \<open>xabyy\<close> (one occurrence) and the split offset 2, the
  first call copies \<open>xa\<close> and consumes both bytes, the second call copies \<open>byy\<close>; together
  \<open>xabyy\<close>, while the single call yields \<open>xZyy\<close>.
\<close>

theorem Transform_split_misses_match:
  "Transform (Replace ''ab'' ''Z'') ''????????'' (take 2 ''xabyy'') False =
     Some (Inr (''xa??????'', 2, 2, None, Replace ''ab'' ''Z'')) \<and>
   Transform (Replace ''ab'' ''Z'') ''????????''
       (drop 2 (take 2 ''xabyy'') @ drop 2 ''xabyy'') True =
     Some (Inr (''byy?????'', 3, 3, None, Replace ''ab'' ''Z'')) \<and>
   produced (Transform (Replace ''ab'' ''Z'') ''????????'' (take 2 ''xabyy'') False) @
   produced (Transform (Replace ''ab'' ''Z'') ''????????''
       (drop 2 (take 2 ''xabyy'') @ drop 2 ''xabyy'') True) = ''xabyy'' \<and>
   Transform (Replace ''ab'' ''Z'') ''????????'' ''xabyy'' True =
     Some (Inr (''xZyy????'', 4, 5, None, Replace ''ab'' ''Z'')) \<and>
   produced (Transform (Replace ''ab'' ''Z'') ''????????'' ''xabyy'' True) = ''xZyy''"
  by code_simp

section \<open>A source shorter than \<open>old\<close>\<close>

text \<open>
  C3: when the call is not the final one and the source is shorter than \<open>old\<close>, the call
  consumes nothing, produces nothing, leaves the destination and the ledger as they are and
  reports \<^verbatim>\<open>ErrShortSrc\<close>.
\<close>

theorem Transform_short_src:
  "length src < length (old r) \<Longrightarrow>
   Transform r dst src False = Some (Inr (dst, 0, 0, Some ErrShortSrc, r))"
  by (simp add: Transform_def)

theorem Transform_short_src_witness:
  "length ''a'' < length (old (Replace ''ab'' ''Z'')) \<and>
   Transform (Replace ''ab'' ''Z'') ''??'' ''a'' False =
     Some (Inr (''??'', 0, 0, Some ErrShortSrc, Replace ''ab'' ''Z''))"
  using Transform_short_src [of "''a''" "Replace ''ab'' ''Z''" "''??''"]
  by (simp add: Replace_def NewReplacer_def)

section \<open>An empty \<open>old\<close>\<close>

lemma Transform_empty_old:
  "old r = [] \<Longrightarrow>
   Transform r dst src atEOF =
     Some (Inr (take (min (length dst) (length src)) src @ drop (min (length dst) (length src)) dst,
                int (min (length dst) (length src)), int (min (length dst) (length src)),
                None, r))"
  by (simp add: Transform_def copy_at_0)

text \<open>
  C4 (empty \<open>old\<close>): the call copies \<open>min (len src) (len dst)\<close> bytes and leaves the ledger
  alone, as \<open>Transform_empty_old\<close> shows, but the claim fails in its last part: with an
  empty \<open>old\<close>, the source \<open>ab\<close> and a destination of one byte, the call copies one byte and
  returns a nil error, not \<^verbatim>\<open>ErrShortDst\<close>.
\<close>

theorem Transform_empty_old_short_dst_nil:
  "Transform (Replace [] ''Z'') ''?'' ''ab'' False =
     Some (Inr (''a'', 1, 1, None, Replace [] ''Z''))"
  by code_simp

section \<open>A destination that is too short\<close>

text \<open>
  When the first occurrence of \<open>old\<close> in the source does not fit into the destination
  together with the bytes before it, the call stops at once: it consumes nothing, produces
  nothing and reports \<^verbatim>\<open>ErrShortDst\<close>. At a later occurrence \<open>loop_found_short\<close> gives
  the result of the iteration: the counts reached so far, and \<^verbatim>\<open>ErrShortDst\<close> only if
  \<open>nDst = 0\<close>.
\<close>

lemma Transform_short_dst_first_match:
  assumes "old r \<noteq> []" "Index src (old r) = int k" "length dst < k + length (new r)"
  shows "Transform r dst src atEOF = Some (Inr (dst, 0, 0, Some ErrShortDst, r))"
proof -
  from Index_found [OF assms(2)] have "length (old r) \<le> length src" by simp
  with assms(1) have eq: "Transform r dst src atEOF =
      Transform_loop r dst src atEOF (int 0) (int 0) None"
    by (simp add: Transform_def)
  from assms(2) have fk: "Index (drop 0 src) (old r) = int k" by simp
  from assms(3) have short: "length dst - 0 < k + length (new r)" by simp
  from loop_found_short [OF le0 le0 fk short, where atEOF=atEOF and err=None]
  show ?thesis unfolding eq by simp
qed

text \<open>
  C5 (an occurrence that does not fit) fails once the call has written a byte: the status
  is set under the guard \<^verbatim>\<open>nDst == 0\<close> only. With \<open>old = a\<close>, \<open>new = b\<close>, the source \<open>aa\<close>
  and a destination of one byte, the first occurrence is replaced, the second one is found
  at the cursor (offset 0 of \<open>src[1:]\<close>) and does not fit into the zero bytes left, and the
  call returns \<open>nDst = 1\<close>, \<open>nSrc = 1\<close> and a nil error, not \<^verbatim>\<open>ErrShortDst\<close>.
\<close>

theorem Transform_short_dst_after_write_nil:
  "Transform (Replace ''a'' ''b'') ''?'' ''aa'' False =
     Some (Inr (''b'', 1, 1, None, Replace ''a'' ''b'')) \<and>
   Index (drop 1 ''aa'') ''a'' = 0 \<and>
   int (length ''?'') - 1 < 0 + int (length ''b'')"
  by code_simp

text \<open>
  C7, amended: with a non-empty \<open>old\<close>, a source at least as long as \<open>old\<close> and a destination
  of length zero, the call reports \<^verbatim>\<open>ErrShortDst\<close>, consumes nothing and produces nothing,
  provided that \<open>new\<close> is non-empty or the source does not begin with \<open>old\<close> (a leading
  occurrence that is replaced by nothing needs no destination space and is consumed).
\<close>

theorem Transform_empty_dst:
  assumes "old r \<noteq> []" "length (old r) \<le> length src"
    and "new r \<noteq> [] \<or> \<not> HasPrefix src (old r)"
  shows "Transform r [] src atEOF = Some (Inr ([], 0, 0, Some ErrShortDst, r))"
proof -
  from assms(1,2) have eq: "Transform r [] src atEOF = Transform_loop r [] src atEOF (int 0) (int 0) None"
    by (simp add: Transform_def)
  show ?thesis
  proof (cases "Index src (old r) = - 1")
    case True
    define bd where "bd = (length src - 0) mod length (old r)"
    define wh where "wh = (\<not> atEOF \<and> bd \<noteq> 0 \<and> HasPrefix (old r) (drop (length src - bd) src))"
    define n where "n = (if wh then length src - 0 - bd else length src - 0)"
    define e where "e = (if wh then Some ErrShortDst else None)"
    from True have nf: "Index (drop 0 src) (old r) = - 1" by simp
    note lp = loop_not_found [OF le0 le0 assms(1) nf bd_def wh_def n_def e_def, where dst="[]"]
    from assms(1) have "bd < length (old r)" unfolding bd_def by simp
    with assms(2) have "bd < length src" by arith
    moreover from assms(1,2) have "0 < length src" by (cases src) auto
    ultimately have "0 < n" unfolding n_def by simp
    with lp show ?thesis unfolding eq by simp
  next
    case False
    with Index_cases [of src "old r"] obtain k where k: "Index src (old r) = int k" by blast
    then have fk: "Index (drop 0 src) (old r) = int k" by simp
    have "0 < k + length (new r)"
    proof (cases "new r = []")
      case True
      with assms(3) have np: "\<not> HasPrefix src (old r)" by simp
      have "k \<noteq> 0"
      proof
        assume "k = 0"
        with Index_found [OF k] have "HasPrefix src (old r)"
          by (simp add: HasPrefix_def)
        with np show False by simp
      qed
      then show ?thesis by simp
    next
      case False
      then show ?thesis by simp
    qed
    then have short: "length ([]::bytes) - 0 < k + length (new r)" by simp
    from loop_found_short [OF le0 le0 fk short, where atEOF=atEOF and err=None]
    show ?thesis unfolding eq by simp
  qed
qed

theorem Transform_empty_dst_witness:
  "old (Replace ''ab'' ''Z'') \<noteq> [] \<and> length (old (Replace ''ab'' ''Z'')) \<le> length ''xab'' \<and>
   new (Replace ''ab'' ''Z'') \<noteq> [] \<and>
   Transform (Replace ''ab'' ''Z'') [] ''xab'' True =
     Some (Inr ([], 0, 0, Some ErrShortDst, Replace ''ab'' ''Z''))"
  using Transform_empty_dst [of "Replace ''ab'' ''Z''" "''xab''" True]
  by (simp add: Replace_def NewReplacer_def)

text \<open>
  C7 as stated fails by design in two ways: a source shorter than \<open>old\<close> before the end of
  the stream is answered with \<^verbatim>\<open>ErrShortSrc\<close>, and a leading occurrence that is replaced by the
  empty \<open>new\<close> is consumed without any destination space.
\<close>

theorem Transform_empty_dst_counterexample:
  "Transform (Replace ''ab'' ''Z'') [] ''a'' False =
     Some (Inr ([], 0, 0, Some ErrShortSrc, Replace ''ab'' ''Z'')) \<and>
   Transform (Replace ''a'' []) [] ''a'' True =
     Some (Inr ([], 0, 1, None, Replace ''a'' []))"
  by code_simp

section \<open>The ledger over an engine's lifetime\<close>

lemma add_records:
  assumes "aligned h"
  shows "\<exists>h'. add (Some h) s0 s1 d0 d1 = Some h' \<and> aligned h' \<and>
              records h' = records h @ [(s0, s1, d0, d1)]"
  using assms by (simp add: add_def aligned_def records_def)

lemma loop_ledger:
  assumes "old r \<noteq> []" "a \<le> length src" "b \<le> length dst"
    and "history r = Some h" "aligned h"
    and "Transform_loop r dst src atEOF (int b) (int a) err = Some (Inr (dst', nd, ns, e, r'))"
  shows "\<exists>h' es. history r' = Some h' \<and> aligned h' \<and> records h' = records h @ es \<and>
           chain_from (int (length (old r))) (int (length (new r))) (int a) (int b) es"
  using assms
proof (induction r dst a b arbitrary: h rule: Transform_loop_induct)
  case (not_found r dst a b)
  note eq = loop_not_found [OF not_found(2,3,1,4) refl refl refl refl, where atEOF=atEOF and err=err]
  from not_found(7) [unfolded eq] have "r' = r"
    by (simp split: if_splits)
  with not_found(5,6) have "history r' = Some h \<and> aligned h \<and> records h = records h @ [] \<and>
      chain_from (int (length (old r))) (int (length (new r))) (int a) (int b) []"
    by simp
  then show ?case by blast
next
  case (found_short r dst a b k)
  note eq = loop_found_short [OF found_short(2,3,4,5), where atEOF=atEOF and err=err]
  from found_short(8) [unfolded eq] have "r' = r" by simp
  with found_short(6,7) have "history r' = Some h \<and> aligned h \<and> records h = records h @ [] \<and>
      chain_from (int (length (old r))) (int (length (new r))) (int a) (int b) []"
    by simp
  then show ?case by blast
next
  case (found_room r dst a b k)
  let ?s0 = "int a + int k" and ?d0 = "int b + int k"
  let ?s1 = "int a + int k + int (length (old r))"
  let ?d1 = "int b + int k + int (length (new r))"
  let ?r = "r\<lparr>history := add (history r) ?s0 ?s1 ?d0 ?d1\<rparr>"
  note eq = loop_found_room [OF found_room(2,3,4,5), where atEOF=atEOF and err=err]
  from add_records [OF found_room(9), of ?s0 ?s1 ?d0 ?d1] obtain h2 where
    h2: "add (Some h) ?s0 ?s1 ?d0 ?d1 = Some h2" "aligned h2"
      "records h2 = records h @ [(?s0, ?s1, ?d0, ?d1)]"
    by blast
  from h2(1) found_room(8) have hr: "history ?r = Some h2" by simp
  from found_room(7) [OF hr h2(2) found_room(10) [unfolded eq]] obtain h' es where
    ih: "history r' = Some h'" "aligned h'" "records h' = records h2 @ es"
      "chain_from (int (length (old ?r))) (int (length (new ?r)))
         (int (a + k + length (old r))) (int (b + k + length (new r))) es"
    by blast
  from ih(4) have "chain_from (int (length (old r))) (int (length (new r))) (int a) (int b)
                     ((?s0, ?s1, ?d0, ?d1) # es)"
    by (simp add: add.assoc)
  moreover from ih(3) h2(3) have "records h' = records h @ ((?s0, ?s1, ?d0, ?d1) # es)"
    by simp
  ultimately show ?case using ih(1,2) by blast
qed

lemma Transform_ledger:
  assumes "history r = Some h" "aligned h"
    and "Transform r dst src atEOF = Some (Inr (dst', nd, ns, e, r'))"
  shows "old r' = old r \<and> new r' = new r \<and>
         (\<exists>h' es. history r' = Some h' \<and> aligned h' \<and> records h' = records h @ es \<and>
            (es = [] \<or> old r \<noteq> []) \<and>
            chain_from (int (length (old r))) (int (length (new r))) 0 0 es)"
proof -
  from Transform_returns [where r=r and dst=dst and src=src and atEOF=atEOF]
  have keep: "old r' = old r \<and> new r' = new r"
    unfolding assms(3) by simp
  have "\<exists>h' es. history r' = Some h' \<and> aligned h' \<and> records h' = records h @ es \<and>
            (es = [] \<or> old r \<noteq> []) \<and>
            chain_from (int (length (old r))) (int (length (new r))) 0 0 es"
  proof (cases "length src < length (old r) \<or> old r = []")
    case True
    with assms(3) have "r' = r"
      by (auto simp: Transform_def copy_at_0 split: if_splits)
    with assms(1,2) have "history r' = Some h \<and> aligned h \<and> records h = records h @ [] \<and>
        ([] = [] \<or> old r \<noteq> []) \<and>
        chain_from (int (length (old r))) (int (length (new r))) 0 0 []"
      by simp
    then show ?thesis by blast
  next
    case False
    then have ne: "old r \<noteq> []" by simp
    from False have eq: "Transform r dst src atEOF =
        Transform_loop r dst src atEOF (int 0) (int 0) None"
      by (simp add: Transform_def)
    from loop_ledger [OF ne le0 le0 assms(1,2) assms(3) [unfolded eq]] ne
    show ?thesis by auto
  qed
  with keep show ?thesis by simp
qed

lemma chain_from_entries:
  assumes "chain_from lo ln a b es" "0 \<le> lo" "0 \<le> ln" "(s0, s1, d0, d1) \<in> set es"
  shows "s1 = s0 + lo \<and> d1 = d0 + ln \<and> a \<le> s0 \<and> b \<le> d0"
  using assms
proof (induction es arbitrary: a b)
  case Nil
  then show ?case by simp
next
  case (Cons x es)
  obtain x0 x1 y0 y1 where x: "x = (x0, x1, y0, y1)" by (cases x)
  show ?case
  proof (cases "(s0, s1, d0, d1) = x")
    case True
    with Cons.prems(1) x show ?thesis by simp
  next
    case False
    with Cons.prems(4) have mem: "(s0, s1, d0, d1) \<in> set es" by simp
    from Cons.prems(1) x have ch: "chain_from lo ln x1 y1 es" and
      le: "a \<le> x0" "b \<le> y0" "x1 = x0 + lo" "y1 = y0 + ln"
      by auto
    from Cons.IH [OF ch Cons.prems(2,3) mem] le Cons.prems(2,3) show ?thesis by simp
  qed
qed

lemma chain_from_consecutive:
  assumes "chain_from lo ln a b es" "Suc j < length es"
  shows "fst (snd (es ! j)) \<le> fst (es ! Suc j) \<and>
         snd (snd (snd (es ! j))) \<le> fst (snd (snd (es ! Suc j)))"
  using assms
proof (induction es arbitrary: a b j)
  case Nil
  then show ?case by simp
next
  case (Cons x es)
  obtain x0 x1 y0 y1 where x: "x = (x0, x1, y0, y1)" by (cases x)
  from Cons.prems(1) x have ch: "chain_from lo ln x1 y1 es" by auto
  show ?case
  proof (cases j)
    case 0
    with Cons.prems(2) obtain z es' where es: "es = z # es'" by (cases es) auto
    obtain z0 z1 w0 w1 where z: "z = (z0, z1, w0, w1)" by (cases z)
    from ch es z have "x1 \<le> z0" "y1 \<le> w0" by simp_all
    with 0 x es z show ?thesis by simp
  next
    case (Suc j')
    with Cons.prems(2) have "Suc j' < length es" by simp
    from Cons.IH [OF ch this] Suc show ?thesis by simp
  qed
qed

lemma records_nth:
  assumes "aligned h" "i < length (src0 h)"
  shows "records h ! i = (src0 h ! i, src1 h ! i, dst0 h ! i, dst1 h ! i)"
  using assms by (simp add: aligned_def records_def)

lemma records_length: "aligned h \<Longrightarrow> length (records h) = length (src0 h)"
  by (simp add: aligned_def records_def)

lemma lifetime_ledger:
  assumes "lifetime r0 ms r" "history r0 = Some NewReplaceHistory"
  shows "old r = old r0 \<and> new r = new r0 \<and>
         (\<exists>h. history r = Some h \<and> aligned h \<and>
            (records h = [] \<or> old r0 \<noteq> []) \<and>
            (\<forall>x \<in> set (records h).
               fst (snd x) = fst x + int (length (old r0)) \<and>
               snd (snd (snd x)) = fst (snd (snd x)) + int (length (new r0)) \<and>
               0 \<le> fst x \<and> 0 \<le> fst (snd (snd x))) \<and>
            (\<forall>i. Suc i < length (records h) \<and> Suc i \<notin> set ms \<longrightarrow>
               fst (snd (records h ! i)) \<le> fst (records h ! Suc i) \<and>
               snd (snd (snd (records h ! i))) \<le> fst (snd (snd (records h ! Suc i)))))"
  using assms
proof (induction rule: lifetime.induct)
  case fresh
  then show ?case
    by (simp add: NewReplaceHistory_def aligned_def records_def)
next
  case (call ms r dst src atEOF dst' nDst nSrc err r')
  from call.IH [OF call.prems] obtain h where
    keep: "old r = old r0" "new r = new r0" and
    h: "history r = Some h" "aligned h" "records h = [] \<or> old r0 \<noteq> []" and
    ent: "\<forall>x \<in> set (records h).
               fst (snd x) = fst x + int (length (old r0)) \<and>
               snd (snd (snd x)) = fst (snd (snd x)) + int (length (new r0)) \<and>
               0 \<le> fst x \<and> 0 \<le> fst (snd (snd x))" and
    ord: "\<forall>i. Suc i < length (records h) \<and> Suc i \<notin> set ms \<longrightarrow>
               fst (snd (records h ! i)) \<le> fst (records h ! Suc i) \<and>
               snd (snd (snd (records h ! i))) \<le> fst (snd (snd (records h ! Suc i)))"
    by blast
  from Transform_ledger [OF h(1,2) call.hyps(2)] obtain h' es where
    keep': "old r' = old r" "new r' = new r" and
    h': "history r' = Some h'" "aligned h'" "records h' = records h @ es"
      "es = [] \<or> old r \<noteq> []" and
    ch: "chain_from (int (length (old r))) (int (length (new r))) 0 0 es"
    by blast
  have len: "ledger_len r = length (records h)"
    using h(1,2) by (simp add: ledger_len_def records_length)
  have ent_es: "\<forall>x \<in> set es.
               fst (snd x) = fst x + int (length (old r0)) \<and>
               snd (snd (snd x)) = fst (snd (snd x)) + int (length (new r0)) \<and>
               0 \<le> fst x \<and> 0 \<le> fst (snd (snd x))"
  proof
    fix x assume x: "x \<in> set es"
    obtain s0 s1 d0 d1 where xe: "x = (s0, s1, d0, d1)" by (cases x)
    from chain_from_entries [OF ch _ _ x [unfolded xe]] keep
    show "fst (snd x) = fst x + int (length (old r0)) \<and>
               snd (snd (snd x)) = fst (snd (snd x)) + int (length (new r0)) \<and>
               0 \<le> fst x \<and> 0 \<le> fst (snd (snd x))"
      unfolding xe by simp
  qed
  have ord': "\<forall>i. Suc i < length (records h') \<and> Suc i \<notin> set (ms @ [ledger_len r]) \<longrightarrow>
               fst (snd (records h' ! i)) \<le> fst (records h' ! Suc i) \<and>
               snd (snd (snd (records h' ! i))) \<le> fst (snd (snd (records h' ! Suc i)))"
  proof (intro allI impI)
    fix i
    assume a: "Suc i < length (records h') \<and> Suc i \<notin> set (ms @ [ledger_len r])"
    then have ne: "Suc i \<noteq> length (records h)" and nm: "Suc i \<notin> set ms"
      using len by auto
    show "fst (snd (records h' ! i)) \<le> fst (records h' ! Suc i) \<and>
               snd (snd (snd (records h' ! i))) \<le> fst (snd (snd (records h' ! Suc i)))"
    proof (cases "Suc i < length (records h)")
      case True
      with ord nm have "fst (snd (records h ! i)) \<le> fst (records h ! Suc i) \<and>
               snd (snd (snd (records h ! i))) \<le> fst (snd (snd (records h ! Suc i)))"
        by blast
      with True show ?thesis by (simp add: h'(3) nth_append)
    next
      case False
      with ne have gt: "length (records h) \<le> i" by arith
      define j where "j = i - length (records h)"
      from gt have i: "i = length (records h) + j" "Suc i = length (records h) + Suc j"
        unfolding j_def by simp_all
      from a h'(3) i have "Suc j < length es" by simp
      moreover have "records h' ! i = es ! j"
        unfolding h'(3) j_def using gt by (simp add: nth_append)
      moreover have "records h' ! Suc i = es ! Suc j"
        unfolding h'(3) j_def using gt by (simp add: nth_append Suc_diff_le)
      ultimately show ?thesis
        using chain_from_consecutive [OF ch, of j] by simp
    qed
  qed
  from h(3) h'(3,4) keep have "records h' = [] \<or> old r0 \<noteq> []" by auto
  moreover from ent ent_es h'(3) have "\<forall>x \<in> set (records h').
               fst (snd x) = fst x + int (length (old r0)) \<and>
               snd (snd (snd x)) = fst (snd (snd x)) + int (length (new r0)) \<and>
               0 \<le> fst x \<and> 0 \<le> fst (snd (snd x))"
    by auto
  ultimately show ?case
    using keep keep' h'(1,2) ord' by auto
qed

text \<open>
  C6, amended: over every sequence of calls on a replacer created with a fresh ledger, the
  four slices of the ledger keep equal lengths, every record \<open>i\<close> satisfies
  \<open>src1(i) - src0(i) = len(old)\<close>, \<open>dst1(i) - dst0(i) = len(new)\<close>, \<open>src0(i) < src1(i)\<close> and
  \<open>dst0(i) \<le> dst1(i)\<close>, and two consecutive records appended by the same call (no call
  started with \<open>i + 1\<close> records in the ledger) satisfy \<open>src1(i) \<le> src0(i+1)\<close> and
  \<open>dst1(i) \<le> dst0(i+1)\<close>. The coordinates are offsets into the buffers of the call that
  appended the record.
\<close>

theorem ledger_law_within_calls:
  assumes "lifetime (NewReplacer ol nw (Some NewReplaceHistory)) ms r"
  shows "\<exists>h. history r = Some h \<and>
           length (src1 h) = length (src0 h) \<and> length (dst0 h) = length (src0 h) \<and>
           length (dst1 h) = length (src0 h) \<and>
           (\<forall>i < length (src0 h).
              src1 h ! i - src0 h ! i = int (length ol) \<and>
              dst1 h ! i - dst0 h ! i = int (length nw) \<and>
              src0 h ! i < src1 h ! i \<and> dst0 h ! i \<le> dst1 h ! i) \<and>
           (\<forall>i. Suc i < length (src0 h) \<and> Suc i \<notin> set ms \<longrightarrow>
              src1 h ! i \<le> src0 h ! Suc i \<and> dst1 h ! i \<le> dst0 h ! Suc i)"
proof -
  let ?r0 = "NewReplacer ol nw (Some NewReplaceHistory)"
  have h0: "history ?r0 = Some NewReplaceHistory" and o: "old ?r0 = ol" and n: "new ?r0 = nw"
    by (simp_all add: NewReplacer_def)
  from lifetime_ledger [OF assms h0] obtain h where
    h: "history r = Some h" "aligned h" "records h = [] \<or> ol \<noteq> []" and
    ent: "\<forall>x \<in> set (records h).
               fst (snd x) = fst x + int (length ol) \<and>
               snd (snd (snd x)) = fst (snd (snd x)) + int (length nw) \<and>
               0 \<le> fst x \<and> 0 \<le> fst (snd (snd x))" and
    ord: "\<forall>i. Suc i < length (records h) \<and> Suc i \<notin> set ms \<longrightarrow>
               fst (snd (records h ! i)) \<le> fst (records h ! Suc i) \<and>
               snd (snd (snd (records h ! i))) \<le> fst (snd (snd (records h ! Suc i)))"
    unfolding o n by blast
  note len = records_length [OF h(2)]
  have e: "\<forall>i < length (src0 h).
              src1 h ! i - src0 h ! i = int (length ol) \<and>
              dst1 h ! i - dst0 h ! i = int (length nw) \<and>
              src0 h ! i < src1 h ! i \<and> dst0 h ! i \<le> dst1 h ! i"
  proof (intro allI impI)
    fix i assume i: "i < length (src0 h)"
    then have mem: "records h ! i \<in> set (records h)" by (simp add: len)
    then have "records h \<noteq> []" by auto
    with h(3) have "0 < int (length ol)" by simp
    with ent mem show "src1 h ! i - src0 h ! i = int (length ol) \<and>
              dst1 h ! i - dst0 h ! i = int (length nw) \<and>
              src0 h ! i < src1 h ! i \<and> dst0 h ! i \<le> dst1 h ! i"
      unfolding records_nth [OF h(2) i] by fastforce
  qed
  have c: "\<forall>i. Suc i < length (src0 h) \<and> Suc i \<notin> set ms \<longrightarrow>
              src1 h ! i \<le> src0 h ! Suc i \<and> dst1 h ! i \<le> dst0 h ! Suc i"
  proof (intro allI impI)
    fix i assume a: "Suc i < length (src0 h) \<and> Suc i \<notin> set ms"
    then have i: "i < length (src0 h)" and si: "Suc i < length (src0 h)" by simp_all
    from a ord have "fst (snd (records h ! i)) \<le> fst (records h ! Suc i) \<and>
               snd (snd (snd (records h ! i))) \<le> fst (snd (snd (records h ! Suc i)))"
      by (simp add: len)
    then show "src1 h ! i \<le> src0 h ! Suc i \<and> dst1 h ! i \<le> dst0 h ! Suc i"
      unfolding records_nth [OF h(2) i] records_nth [OF h(2) si] by simp
  qed
  from h(2) have "length (src1 h) = length (src0 h) \<and> length (dst0 h) = length (src0 h) \<and>
           length (dst1 h) = length (src0 h)"
    by (simp add: aligned_def)
  with h(1) e c show ?thesis by blast
qed

theorem ledger_law_within_calls_witness:
  "lifetime (NewReplacer ''a'' ''bc'' (Some NewReplaceHistory)) [0]
     \<lparr>old = ''a'', new = ''bc'',
        history = Some \<lparr>src0 = [0, 1], src1 = [1, 2], dst0 = [0, 2], dst1 = [2, 4]\<rparr>\<rparr> \<and>
   [1, 2 :: int] ! 0 - [0, 1] ! 0 = int (length ''a'') \<and>
   [2, 4 :: int] ! 0 - [0, 2] ! 0 = int (length ''bc'') \<and>
   [1, 2 :: int] ! 0 \<le> [0, 1] ! Suc 0 \<and> [2, 4 :: int] ! 0 \<le> [0, 2] ! Suc 0"
proof -
  let ?r0 = "NewReplacer ''a'' ''bc'' (Some NewReplaceHistory)"
  let ?h = "\<lparr>src0 = [0, 1], src1 = [1, 2], dst0 = [0, 2], dst1 = [2, 4 :: int]\<rparr>"
  let ?r1 = "\<lparr>old = ''a'', new = ''bc'', history = Some ?h\<rparr>"
  have run: "Transform ?r0 ''????'' ''aa'' True = Some (Inr (''bcbc'', 4, 2, None, ?r1))"
    by code_simp
  have "ledger_len ?r0 = 0"
    by (simp add: ledger_len_def NewReplacer_def NewReplaceHistory_def)
  with lifetime.call [OF lifetime.fresh run] have lt: "lifetime ?r0 [0] ?r1"
    by simp
  from ledger_law_within_calls [OF lt] obtain h where
    h: "history ?r1 = Some h" and
    e: "\<forall>i < length (src0 h).
              src1 h ! i - src0 h ! i = int (length ''a'') \<and>
              dst1 h ! i - dst0 h ! i = int (length ''bc'') \<and>
              src0 h ! i < src1 h ! i \<and> dst0 h ! i \<le> dst1 h ! i" and
    c: "\<forall>i. Suc i < length (src0 h) \<and> Suc i \<notin> set [0::nat] \<longrightarrow>
              src1 h ! i \<le> src0 h ! Suc i \<and> dst1 h ! i \<le> dst0 h ! Suc i"
    by blast
  from h have hh: "h = ?h" by simp
  from e [unfolded hh, rule_format, of 0] c [unfolded hh, rule_format, of 0] lt
  show ?thesis by simp
qed

text \<open>
  C6 as stated fails across calls and for deletions. Two calls with the source \<open>a\<close> each
  record \<open>(0, 1, 0, 1)\<close>, so \<open>src1(0) = 1 > 0 = src0(1)\<close>; and with an empty \<open>new\<close> a record
  has \<open>dst0 = dst1\<close>.
\<close>

theorem ledger_law_counterexample:
  "lifetime (NewReplacer ''a'' ''b'' (Some NewReplaceHistory)) [0, 1]
     \<lparr>old = ''a'', new = ''b'',
        history = Some \<lparr>src0 = [0, 0], src1 = [1, 1], dst0 = [0, 0], dst1 = [1, 1]\<rparr>\<rparr> \<and>
   \<not> ledger_coordinate_law ''a'' ''b''
       \<lparr>src0 = [0, 0], src1 = [1, 1], dst0 = [0, 0], dst1 = [1, 1]\<rparr> \<and>
   lifetime (NewReplacer ''a'' [] (Some NewReplaceHistory)) [0]
     \<lparr>old = ''a'', new = [],
        history = Some \<lparr>src0 = [0], src1 = [1], dst0 = [0], dst1 = [0]\<rparr>\<rparr> \<and>
   \<not> ledger_coordinate_law ''a'' []
       \<lparr>src0 = [0], src1 = [1], dst0 = [0], dst1 = [0]\<rparr>"
proof -
  let ?r0 = "NewReplacer ''a'' ''b'' (Some NewReplaceHistory)"
  let ?h1 = "\<lparr>src0 = [0], src1 = [1], dst0 = [0], dst1 = [1 :: int]\<rparr>"
  let ?r1 = "\<lparr>old = ''a'', new = ''b'', history = Some ?h1\<rparr>"
  let ?h2 = "\<lparr>src0 = [0, 0], src1 = [1, 1], dst0 = [0, 0], dst1 = [1, 1 :: int]\<rparr>"
  let ?r2 = "\<lparr>old = ''a'', new = ''b'', history = Some ?h2\<rparr>"
  have run1: "Transform ?r0 ''?'' ''a'' True = Some (Inr (''b'', 1, 1, None, ?r1))"
    by code_simp
  have run2: "Transform ?r1 ''?'' ''a'' True = Some (Inr (''b'', 1, 1, None, ?r2))"
    by code_simp
  have l0: "ledger_len ?r0 = 0"
    by (simp add: ledger_len_def NewReplacer_def NewReplaceHistory_def)
  have l1: "ledger_len ?r1 = 1"
    by (simp add: ledger_len_def)
  from lifetime.call [OF lifetime.fresh run1] l0 have "lifetime ?r0 [0] ?r1"
    by simp
  from lifetime.call [OF this run2] l1 have lt: "lifetime ?r0 [0, 1] ?r2"
    by simp
  have bad: "\<not> ledger_coordinate_law ''a'' ''b'' ?h2"
  proof
    assume "ledger_coordinate_law ''a'' ''b'' ?h2"
    then have "\<forall>i. Suc i < length (src0 ?h2) \<longrightarrow>
         src1 ?h2 ! i \<le> src0 ?h2 ! Suc i \<and> dst1 ?h2 ! i \<le> dst0 ?h2 ! Suc i"
      unfolding ledger_coordinate_law_def by blast
    from this [rule_format, of 0] show False by simp
  qed
  let ?d0 = "NewReplacer ''a'' [] (Some NewReplaceHistory)"
  let ?g1 = "\<lparr>src0 = [0], src1 = [1], dst0 = [0], dst1 = [0 :: int]\<rparr>"
  let ?d1 = "\<lparr>old = ''a'', new = [], history = Some ?g1\<rparr>"
  have run3: "Transform ?d0 ''?'' ''a'' True = Some (Inr (''?'', 0, 1, None, ?d1))"
    by code_simp
  have "ledger_len ?d0 = 0"
    by (simp add: ledger_len_def NewReplacer_def NewReplaceHistory_def)
  with lifetime.call [OF lifetime.fresh run3] have lt2: "lifetime ?d0 [0] ?d1"
    by simp
  have bad2: "\<not> ledger_coordinate_law ''a'' [] ?g1"
  proof
    assume "ledger_coordinate_law ''a'' [] ?g1"
    then have "\<forall>i < length (src0 ?g1).
         src1 ?g1 ! i - src0 ?g1 ! i = int (length ''a'') \<and>
         dst1 ?g1 ! i - dst0 ?g1 ! i = int (length ([]::bytes)) \<and>
         src0 ?g1 ! i < src1 ?g1 ! i \<and> dst0 ?g1 ! i < dst1 ?g1 ! i"
      unfolding ledger_coordinate_law_def by blast
    from this [rule_format, of 0] show False by simp
  qed
  from lt bad lt2 bad2 show ?thesis by blast
qed

section \<open>The pipeline of \<^verbatim>\<open>ReplaceAll\<close>\<close>

lemma Chain_stage:
  assumes "old r \<noteq> []" "length (old r) \<le> length src"
    and "length (replace_all_spec (old r) (new r) src) \<le> cap"
  shows "Chain (r # rs) cap src = Chain rs cap (replace_all_spec (old r) (new r) src)"
proof -
  from assms(3) have "length (replace_all_spec (old r) (new r) src) \<le> length (replicate cap (CHR 0x00))"
    by simp
  from Transform_whole_stream [OF assms(1,2) this] obtain r' where
    "Transform r (replicate cap (CHR 0x00)) src True =
           Some (Inr (replace_all_spec (old r) (new r) src @
                        drop (length (replace_all_spec (old r) (new r) src)) (replicate cap (CHR 0x00)),
                      int (length (replace_all_spec (old r) (new r) src)),
                      int (length src), None, r'))"
    by blast
  then show ?thesis by simp
qed

text \<open>
  C8 (sequential pipeline): the transformer that \<^verbatim>\<open>ReplaceAll\<close> builds from the table with
  the rules \<open>(a, b)\<close>, \<open>(b, c)\<close> in this order turns the input \<open>a\<close> into \<open>c\<close>, whatever
  the size of the destination buffers, as long as they hold one byte.
\<close>

theorem ReplaceAll_sequential:
  "(case ReplaceAll (Add (Add (ReplaceStringTable []) ''a'' ''b'') ''b'' ''c'') of
      Inl p \<Rightarrow> None
    | Inr rs \<Rightarrow> Chain rs (Suc cap) ''a'') = Some (Inr (''c'', None))"
proof -
  have t: "ReplaceAll (Add (Add (ReplaceStringTable []) ''a'' ''b'') ''b'' ''c'') =
           Inr [Replace ''a'' ''b'', Replace ''b'' ''c'']"
    by code_simp
  have r1: "replace_all_spec ''a'' ''b'' ''a'' = ''b''" by code_simp
  have r2: "replace_all_spec ''b'' ''c'' ''b'' = ''c''" by code_simp
  have s1: "Chain [Replace ''a'' ''b'', Replace ''b'' ''c''] (Suc cap) ''a'' =
            Chain [Replace ''b'' ''c''] (Suc cap) ''b''"
    using Chain_stage [of "Replace ''a'' ''b''" "''a''" "Suc cap" "[Replace ''b'' ''c'']"]
    by (simp add: Replace_def NewReplacer_def r1)
  have s2: "Chain [Replace ''b'' ''c''] (Suc cap) ''b'' = Chain [] (Suc cap) ''c''"
    using Chain_stage [of "Replace ''b'' ''c''" "''b''" "Suc cap" "[]"]
    by (simp add: Replace_def NewReplacer_def r2)
  have s3: "Chain [] (Suc cap) ''c'' = Some (Inr (''c'', None))"
    by simp
  show ?thesis
    unfolding t by (simp only: sum.case s1 s2 s3)
qed

section \<open>The ledger does not influence the transformation\<close>

lemma loop_ledger_independent:
  assumes "old r \<noteq> []" "a \<le> length src" "b \<le> length dst"
  shows "map_option (map_sum id (\<lambda>(d, nd, ns, e, r'). (d, nd, ns, e)))
           (Transform_loop (r\<lparr>history := h'\<rparr>) dst src atEOF (int b) (int a) err) =
         map_option (map_sum id (\<lambda>(d, nd, ns, e, r'). (d, nd, ns, e)))
           (Transform_loop r dst src atEOF (int b) (int a) err)"
  using assms
proof (induction r dst a b arbitrary: h' rule: Transform_loop_induct)
  case (not_found r dst a b)
  let ?r = "r\<lparr>history := h'\<rparr>"
  from not_found have p: "old ?r \<noteq> []" "Index (drop a src) (old ?r) = - 1"
    by simp_all
  show ?case
    unfolding loop_not_found [OF not_found(2,3,1,4) refl refl refl refl]
      loop_not_found [OF not_found(2,3) p refl refl refl refl]
    by simp
next
  case (found_short r dst a b k)
  let ?r = "r\<lparr>history := h'\<rparr>"
  from found_short have p: "Index (drop a src) (old ?r) = int k"
    "length dst - b < k + length (new ?r)"
    by simp_all
  show ?case
    unfolding loop_found_short [OF found_short(2,3,4,5)] loop_found_short [OF found_short(2,3) p]
    by simp
next
  case (found_room r dst a b k)
  let ?r = "r\<lparr>history := h'\<rparr>"
  from found_room have p: "Index (drop a src) (old ?r) = int k"
    "k + length (new ?r) \<le> length dst - b"
    by simp_all
  show ?case
    unfolding loop_found_room [OF found_room(2,3,4,5)] loop_found_room [OF found_room(2,3) p]
    using found_room(7) [of "add h' (int a + int k) (int a + int k + int (length (old r)))
                  (int b + int k) (int b + int k + int (length (new r)))"]
    by simp
qed

lemma Transform_ledger_independent_aux:
  "map_option (map_sum id (\<lambda>(d, nd, ns, e, r'). (d, nd, ns, e)))
     (Transform (r\<lparr>history := h'\<rparr>) dst src atEOF) =
   map_option (map_sum id (\<lambda>(d, nd, ns, e, r'). (d, nd, ns, e)))
     (Transform r dst src atEOF)"
proof (cases "length src < length (old r) \<or> old r = []")
  case True
  then show ?thesis
    by (auto simp: Transform_def copy_at_0)
next
  case False
  then have ne: "old r \<noteq> []" by simp
  from False show ?thesis
    using loop_ledger_independent [OF ne, where a=0 and src=src and b=0 and dst=dst and h'=h' and atEOF=atEOF and err=None]
    by (simp add: Transform_def)
qed

text \<open>
  C9: a replacer built with a nil history (\<^verbatim>\<open>Replace\<close>) and a replacer built with a fresh
  \<^verbatim>\<open>ReplaceHistory\<close> both return from every call, without a panic, with the same
  destination bytes, the same \<open>nDst\<close> and \<open>nSrc\<close> and the same status.
\<close>

theorem Transform_ledger_independent:
  "\<exists>dst' nDst nSrc err rN rH.
     Transform (Replace ol nw) dst src atEOF = Some (Inr (dst', nDst, nSrc, err, rN)) \<and>
     Transform (NewReplacer ol nw (Some NewReplaceHistory)) dst src atEOF =
       Some (Inr (dst', nDst, nSrc, err, rH))"
proof -
  let ?rH = "NewReplacer ol nw (Some NewReplaceHistory)"
  have rN: "Replace ol nw = ?rH\<lparr>history := None\<rparr>"
    by (simp add: Replace_def NewReplacer_def)
  from Transform_returns [where r="?rH" and dst=dst and src=src and atEOF=atEOF]
  obtain dst' nDst nSrc err rH where
    H: "Transform ?rH dst src atEOF = Some (Inr (dst', nDst, nSrc, err, rH))"
    by (cases "Transform ?rH dst src atEOF") (auto split: sum.splits)
  from Transform_returns [where r="Replace ol nw" and dst=dst and src=src and atEOF=atEOF]
  obtain dstN nDstN nSrcN errN rN where
    N: "Transform (Replace ol nw) dst src atEOF = Some (Inr (dstN, nDstN, nSrcN, errN, rN))"
    by (cases "Transform (Replace ol nw) dst src atEOF") (auto split: sum.splits)
  from Transform_ledger_independent_aux [where r="?rH" and h'=None and dst=dst and src=src and atEOF=atEOF]
  have "dstN = dst' \<and> nDstN = nDst \<and> nSrcN = nSrc \<and> errN = err"
    unfolding rN [symmetric] H N by simp
  with H N show ?thesis by blast
qed

section \<open>Memory safety\<close>

text \<open>
  C10: every call returns without a panic, with \<open>0 \<le> nSrc \<le> len(src)\<close> and
  \<open>0 \<le> nDst \<le> len(dst)\<close>; the destination keeps its length and is unchanged from
  offset \<open>nDst\<close> on, so every write lies within \<open>dst[0:nDst]\<close>.
\<close>

theorem Transform_in_bounds:
  "\<exists>dst' nDst nSrc err r'.
     Transform r dst src atEOF = Some (Inr (dst', nDst, nSrc, err, r')) \<and>
     0 \<le> nSrc \<and> nSrc \<le> int (length src) \<and> 0 \<le> nDst \<and> nDst \<le> int (length dst) \<and>
     length dst' = length dst \<and> drop (nat nDst) dst' = drop (nat nDst) dst"
  using Transform_returns [where r=r and dst=dst and src=src and atEOF=atEOF]
  by (auto split: option.splits sum.splits)

end
